theory Spec2Isabelle
  imports Complex_Main
begin

section \<open>The overland-flow driver loop of \<^verbatim>\<open>overland_flow.ipynb\<close>\<close>

text \<open>
  The repository is one notebook. Its only control logic is the simulation cell of step 3:
  a \<^verbatim>\<open>for\<close> loop over the reporting times \<^verbatim>\<open>range(0, model_run_time + time_step, time_step)\<close>,
  an inner \<^verbatim>\<open>while elapsed_time < time_slice\<close> loop of sub-steps, and a plot after every
  slice with \<^verbatim>\<open>time_slice > 0\<close>.

  The integrator (\<^verbatim>\<open>OverlandFlow\<close>) and the grid come from the Landlab library, which is not
  part of the repository. They are taken as parameters: an object with the two attributes
  the notebook writes and reads, and three methods of unknown behaviour.

  Python floats are idealised as \<^typ>\<open>real\<close>: the model keeps the comparisons and the
  additions of the cell and abstracts from rounding, infinities and NaN. The \<^verbatim>\<open>print\<close> calls
  of the cell (the time slice, the wall-clock time) are left out, and the library methods
  are taken to return.
\<close>

subsection \<open>The Landlab component, as the notebook uses it\<close>

text \<open>
  \<^verbatim>\<open>overland_flow.dt\<close> and \<^verbatim>\<open>overland_flow.rainfall_intensity\<close> are the attributes the cell
  assigns; \<open>internals\<close> stands for everything else the object and its grid hold (the
  fields \<^verbatim>\<open>surface_water__depth\<close>, \<^verbatim>\<open>surface_water__discharge\<close>, node status, ...).
  An attribute assignment is a field update.
\<close>

record 'g OverlandFlow =
  of_dt :: real
  of_rainfall_intensity :: real
  internals :: 'g

text \<open>
  The three library methods the cell calls. \<^verbatim>\<open>calc_time_step()\<close> returns a number and, being a
  method of a mutable object, may change the object; \<^verbatim>\<open>overland_flow()\<close> returns nothing and
  changes the object; \<^verbatim>\<open>discharge_mapper(...)\<close> reads the link discharge of the grid and returns
  an array over the nodes.
\<close>

record 'g landlab =
  calc_time_step :: "'g OverlandFlow \<Rightarrow> real \<times> 'g OverlandFlow"
  overland_flow :: "'g OverlandFlow \<Rightarrow> 'g OverlandFlow"
  discharge_mapper :: "'g OverlandFlow \<Rightarrow> real list"

subsection \<open>Run parameters and notebook variables\<close>

record parameters =
  model_run_time :: int
  storm_duration :: int
  time_step :: int
  rainfall_intensity :: real

text \<open>The values the cell assigns: 20 minutes of run, 10 minutes of rain, a plot every 30 s.\<close>

definition notebook_parameters :: parameters where
  "notebook_parameters =
     \<lparr>model_run_time = 20 * 60, storm_duration = 10 * 60, time_step = 30,
      rainfall_intensity = (592 / 10) / (100 * 3600)\<rparr>"

text \<open>
  What the cell does to the outside is kept in a trace: \<open>Step t r d\<close> is one call of
  \<^verbatim>\<open>overland_flow.overland_flow()\<close>, made at elapsed time \<open>t\<close> with rainfall attribute \<open>r\<close>,
  after which the cell adds \<open>d\<close> (the attribute \<^verbatim>\<open>dt\<close> read after the call) to the elapsed time;
  \<open>Plot ts xs ys\<close> is the figure \<^verbatim>\<open>flow_{ts}.png\<close>, drawn from the series
  \<^verbatim>\<open>outlet_times\<close> = \<open>xs\<close> and \<^verbatim>\<open>outlet_discharge\<close> = \<open>ys\<close> as they are at that moment.
\<close>

datatype event = Step real real real | Plot int "real list" "real list"

record 'g notebook =
  elapsed_time :: real
  outlet_discharge :: "real list"
  outlet_times :: "real list"
  component :: "'g OverlandFlow"
  trace :: "event list"

datatype error = IndexError | ValueError

text \<open>A raised exception ends the cell; the variables stay as they were when it was raised.\<close>

type_synonym 'g outcome = "(error \<times> 'g notebook) + 'g notebook"

fun final :: "'g outcome \<Rightarrow> 'g notebook" where
  "final (Inl (e, v)) = v"
| "final (Inr v) = v"

fun steps :: "event list \<Rightarrow> (real \<times> real \<times> real) list" where
  "steps [] = []"
| "steps (Step t r d # es) = (t, r, d) # steps es"
| "steps (Plot ts xs ys # es) = steps es"

fun plots :: "event list \<Rightarrow> int list" where
  "plots [] = []"
| "plots (Step t r d # es) = plots es"
| "plots (Plot ts xs ys # es) = ts # plots es"

subsection \<open>Python's \<^verbatim>\<open>range(start, stop, step)\<close>\<close>

definition range_py :: "int \<Rightarrow> int \<Rightarrow> int \<Rightarrow> error + int list" where
  "range_py start stop step =
     (if step = 0 then Inl ValueError
      else if 0 < step then
        Inr (map (\<lambda>k. start + int k * step) [0..<nat ((stop - start + step - 1) div step)])
      else
        Inr (map (\<lambda>k. start + int k * step) [0..<nat ((start - stop - step - 1) div (- step))]))"

subsection \<open>One sub-step: the body of the \<^verbatim>\<open>while\<close> loop\<close>

text \<open>The rainfall branch: \<^verbatim>\<open>if elapsed_time < (storm_duration): ... else: ...\<close>.\<close>

definition rainfall_at :: "parameters \<Rightarrow> real \<Rightarrow> real" where
  "rainfall_at P t = (if t < real_of_int (storm_duration P) then rainfall_intensity P else 0)"

text \<open>
  The component at the moment \<^verbatim>\<open>overland_flow.overland_flow()\<close> is called: the time step
  has been computed and stored, the rainfall attribute has been set.
\<close>

definition forced :: "'g landlab \<Rightarrow> parameters \<Rightarrow> 'g notebook \<Rightarrow> 'g OverlandFlow" where
  "forced L P v =
     (case calc_time_step L (component v) of
        (t, c) \<Rightarrow> c\<lparr>of_dt := t, of_rainfall_intensity := rainfall_at P (elapsed_time v)\<rparr>)"

text \<open>The hard-wired outlet node of \<^verbatim>\<open>discharge[26267]\<close>.\<close>

definition outlet_node :: nat where
  "outlet_node = 26267"

definition substep :: "'g landlab \<Rightarrow> parameters \<Rightarrow> 'g notebook \<Rightarrow> 'g outcome" where
  "substep L P v =
     (let c = forced L P v;
          c' = overland_flow L c;
          t' = elapsed_time v + of_dt c';
          discharge = discharge_mapper L c';
          v' = v\<lparr>elapsed_time := t', component := c',
                 trace := trace v @ [Step (elapsed_time v) (of_rainfall_intensity c) (of_dt c')]\<rparr>
      in if outlet_node < length discharge
         then Inr (v'\<lparr>outlet_discharge := outlet_discharge v @ [discharge ! outlet_node],
                      outlet_times := outlet_times v @ [t']\<rparr>)
         else Inl (IndexError, v'))"

subsection \<open>The loops\<close>

text \<open>
  The inner loop may run forever (nothing in the cell bounds the number of sub-steps), so
  its result is optional: \<open>None\<close> is a loop that never ends.
\<close>

partial_function (option) while_substeps ::
  "'g landlab \<Rightarrow> parameters \<Rightarrow> int \<Rightarrow> 'g notebook \<Rightarrow> 'g outcome option" where
  "while_substeps L par time_slice v =
     (if elapsed_time v < real_of_int time_slice
      then (case substep L par v of
              Inl err \<Rightarrow> Some (Inl err)
            | Inr v' \<Rightarrow> while_substeps L par time_slice v')
      else Some (Inr v))"

definition plot_result :: "int \<Rightarrow> 'g notebook \<Rightarrow> 'g notebook" where
  "plot_result time_slice v =
     (if 0 < time_slice
      then v\<lparr>trace := trace v @ [Plot time_slice (outlet_times v) (outlet_discharge v)]\<rparr>
      else v)"

fun for_slices ::
  "'g landlab \<Rightarrow> parameters \<Rightarrow> int list \<Rightarrow> 'g notebook \<Rightarrow> 'g outcome option" where
  "for_slices L P [] v = Some (Inr v)"
| "for_slices L P (time_slice # rest) v =
     (case while_substeps L P time_slice v of
        None \<Rightarrow> None
      | Some (Inl err) \<Rightarrow> Some (Inl err)
      | Some (Inr v') \<Rightarrow> for_slices L P rest (plot_result time_slice v'))"

text \<open>The variables before the loop: \<^verbatim>\<open>elapsed_time = 0.0\<close> and two empty lists.\<close>

definition initial :: "'g OverlandFlow \<Rightarrow> 'g notebook" where
  "initial c = \<lparr>elapsed_time = 0, outlet_discharge = [], outlet_times = [],
                component = c, trace = []\<rparr>"

definition run :: "'g landlab \<Rightarrow> parameters \<Rightarrow> 'g OverlandFlow \<Rightarrow> 'g outcome option" where
  "run L P c =
     (case range_py 0 (model_run_time P + time_step P) (time_step P) of
        Inl err \<Rightarrow> Some (Inl (err, initial c))
      | Inr slices \<Rightarrow> for_slices L P slices (initial c))"

text \<open>The amount by which a sub-step started in \<open>v\<close> advances the elapsed time.\<close>

definition step_dt :: "'g landlab \<Rightarrow> parameters \<Rightarrow> 'g notebook \<Rightarrow> real" where
  "step_dt L P v = of_dt (overland_flow L (forced L P v))"

text \<open>
  A stand-in for the library, for running the cell on concrete data: a constant time step
  \<open>d\<close>, an integrator that leaves the object alone, and a grid of \<open>n\<close> nodes that all report
  the discharge \<open>q\<close>.
\<close>

definition steady :: "real \<Rightarrow> nat \<Rightarrow> real \<Rightarrow> unit landlab" where
  "steady d n q =
     \<lparr>calc_time_step = (\<lambda>c. (d, c)), overland_flow = (\<lambda>c. c),
      discharge_mapper = (\<lambda>c. replicate n q)\<rparr>"

definition still :: "unit OverlandFlow" where
  "still = \<lparr>of_dt = 0, of_rainfall_intensity = 0, internals = ()\<rparr>"

text \<open>
  A short run for concrete evaluation: 60 s, rain during the first 40 s, a plot every 30 s.
  With the constant time step 45 it takes two sub-steps; \<open>demo_result\<close> is what the cell
  leaves behind.
\<close>

definition demo_parameters :: parameters where
  "demo_parameters =
     \<lparr>model_run_time = 60, storm_duration = 40, time_step = 30, rainfall_intensity = 1 / 4\<rparr>"

definition demo_result :: "unit notebook" where
  "demo_result =
     \<lparr>elapsed_time = 90, outlet_discharge = [7, 7], outlet_times = [45, 90],
      component = \<lparr>of_dt = 45, of_rainfall_intensity = 0, internals = ()\<rparr>,
      trace = [Step 0 (1 / 4) 45, Plot 30 [45] [7], Step 45 0 45, Plot 60 [45, 90] [7, 7]]\<rparr>"

text \<open>
  The same run with a run time of 100 s, which the reporting interval of 30 s does not divide:
  \<^verbatim>\<open>range(0, 130, 30)\<close> has the slices 0, 30, 60, 90 and 120.
\<close>

definition uneven_parameters :: parameters where
  "uneven_parameters =
     \<lparr>model_run_time = 100, storm_duration = 40, time_step = 30, rainfall_intensity = 1 / 4\<rparr>"

definition uneven_result :: "unit notebook" where
  "uneven_result =
     \<lparr>elapsed_time = 135, outlet_discharge = [7, 7, 7], outlet_times = [45, 90, 135],
      component = \<lparr>of_dt = 45, of_rainfall_intensity = 0, internals = ()\<rparr>,
      trace = [Step 0 (1 / 4) 45, Plot 30 [45] [7], Step 45 0 45, Plot 60 [45, 90] [7, 7],
               Plot 90 [45, 90] [7, 7], Step 90 0 45, Plot 120 [45, 90, 135] [7, 7, 7]]\<rparr>"

declare while_substeps.simps [code]

subsection \<open>Two predicates for the proofs about the reporting times\<close>

text \<open>
  \<open>reached es\<close>: every figure of the trace was drawn from a series whose last time is at or
  after the figure's time slice, and that last time is the end of a sub-step that started
  before the time slice. \<open>arrived b v\<close>: either no time has elapsed, or the last recorded
  time is the elapsed time and is the end of a sub-step that started before \<open>b\<close>.
\<close>

definition reached :: "event list \<Rightarrow> bool" where
  "reached es \<longleftrightarrow>
     (\<forall>ts xs ys. Plot ts xs ys \<in> set es \<longrightarrow>
        xs \<noteq> [] \<and> real_of_int ts \<le> last xs
        \<and> (\<exists>t \<rho> d. Step t \<rho> d \<in> set es \<and> t < real_of_int ts \<and> last xs = t + d))"

definition arrived :: "real \<Rightarrow> 'g notebook \<Rightarrow> bool" where
  "arrived b v \<longleftrightarrow>
     elapsed_time v \<le> 0
     \<or> (outlet_times v \<noteq> [] \<and> last (outlet_times v) = elapsed_time v
        \<and> (\<exists>t \<rho> d. Step t \<rho> d \<in> set (trace v) \<and> t < b \<and> elapsed_time v = t + d))"

section \<open>Facts about one sub-step and the loops\<close>

lemma rain_forced: "of_rainfall_intensity (forced L P v) = rainfall_at P (elapsed_time v)"
  by (simp add: forced_def split: prod.split)

lemma final_substep:
  "elapsed_time (final (substep L P v)) = elapsed_time v + step_dt L P v"
  "trace (final (substep L P v)) =
     trace v @ [Step (elapsed_time v) (rainfall_at P (elapsed_time v)) (step_dt L P v)]"
  "component (final (substep L P v)) = overland_flow L (forced L P v)"
  by (simp_all add: substep_def step_dt_def rain_forced Let_def)

lemma substep_Inr:
  assumes "substep L P v = Inr v'"
  shows "outlet_times v' = outlet_times v @ [elapsed_time v']"
    and "outlet_discharge v' =
           outlet_discharge v @ [discharge_mapper L (component v') ! outlet_node]"
    and "outlet_node < length (discharge_mapper L (component v'))"
  using assms by (auto simp: substep_def Let_def split: if_splits)

lemma substep_Inl:
  assumes "substep L P v = Inl (e, v')"
  shows "e = IndexError" and "outlet_times v' = outlet_times v"
    and "outlet_discharge v' = outlet_discharge v"
    and "length (discharge_mapper L (component v')) \<le> outlet_node"
  using assms by (auto simp: substep_def Let_def split: if_splits)

lemma while_substeps_rule:
  assumes run: "while_substeps L P ts v = Some r"
    and init: "J (Inr v)"
    and step: "\<And>u. J (Inr u) \<Longrightarrow> elapsed_time u < real_of_int ts \<Longrightarrow> J (substep L P u)"
  shows "J r \<and> (\<forall>u. r = Inr u \<longrightarrow> real_of_int ts \<le> elapsed_time u)"
proof -
  let ?Q = "\<lambda>L' P' ts' v r. L' = L \<longrightarrow> P' = P \<longrightarrow> ts' = ts \<longrightarrow> J (Inr v) \<longrightarrow>
              J r \<and> (\<forall>u. r = Inr u \<longrightarrow> real_of_int ts \<le> elapsed_time u)"
  have "?Q L P ts v r"
  proof (rule while_substeps.raw_induct [where P = ?Q, OF _ run], intro impI)
    fix w L' P' ts' v r
    assume IH: "\<And>L' P' ts' v r. w L' P' ts' v = Some r \<Longrightarrow> ?Q L' P' ts' v r"
      and body: "(if elapsed_time v < real_of_int ts'
                  then case substep L' P' v of Inl err \<Rightarrow> Some (Inl err)
                       | Inr v' \<Rightarrow> w L' P' ts' v'
                  else Some (Inr v)) = Some r"
      and eq: "L' = L" "P' = P" "ts' = ts" and J: "J (Inr v)"
    show "J r \<and> (\<forall>u. r = Inr u \<longrightarrow> real_of_int ts \<le> elapsed_time u)"
    proof (cases "elapsed_time v < real_of_int ts")
      case False
      with body eq J show ?thesis by auto
    next
      case True
      have Js: "J (substep L P v)" using step [OF J True] .
      show ?thesis
      proof (cases "substep L P v")
        case (Inl err)
        with True body eq have "r = Inl err" by simp
        with Js Inl show ?thesis by simp
      next
        case (Inr v')
        with True body eq have "w L P ts v' = Some r" by simp
        from IH [OF this] Js Inr show ?thesis by simp
      qed
    qed
  qed
  with init show ?thesis by simp
qed


lemma while_substeps_terminates:
  assumes pos: "0 < \<delta>" and prog: "\<And>u. \<delta> \<le> step_dt L P u"
  shows "\<exists>r. while_substeps L P ts v = Some r"
proof (induction "nat \<lceil>(real_of_int ts - elapsed_time v) / \<delta>\<rceil>" arbitrary: v rule: less_induct)
  case less
  show ?case
  proof (cases "elapsed_time v < real_of_int ts")
    case False
    then show ?thesis by (subst while_substeps.simps) simp
  next
    case True
    show ?thesis
    proof (cases "substep L P v")
      case (Inl err)
      with True show ?thesis by (subst while_substeps.simps) simp
    next
      case (Inr v')
      have "elapsed_time v' = elapsed_time v + step_dt L P v"
        using final_substep(1) [of L P v] Inr by simp
      with prog [of v] have adv: "elapsed_time v + \<delta> \<le> elapsed_time v'" by simp
      have "(real_of_int ts - elapsed_time v') / \<delta> \<le> (real_of_int ts - elapsed_time v - \<delta>) / \<delta>"
        using adv pos by (intro divide_right_mono) simp_all
      also have "\<dots> = (real_of_int ts - elapsed_time v) / \<delta> - 1"
        using pos by (simp add: diff_divide_distrib)
      finally have "(real_of_int ts - elapsed_time v') / \<delta>
                      \<le> (real_of_int ts - elapsed_time v) / \<delta> - 1" .
      then have "\<lceil>(real_of_int ts - elapsed_time v') / \<delta>\<rceil>
                   \<le> \<lceil>(real_of_int ts - elapsed_time v) / \<delta>\<rceil> - 1"
        by (metis ceiling_diff_one ceiling_mono)
      moreover have "0 < \<lceil>(real_of_int ts - elapsed_time v) / \<delta>\<rceil>"
        using True pos by simp
      ultimately have "nat \<lceil>(real_of_int ts - elapsed_time v') / \<delta>\<rceil>
                         < nat \<lceil>(real_of_int ts - elapsed_time v) / \<delta>\<rceil>"
        by linarith
      from less [OF this] obtain r where "while_substeps L P ts v' = Some r" by blast
      with True Inr show ?thesis by (subst while_substeps.simps) simp
    qed
  qed
qed

lemma for_slices_terminates:
  assumes pos: "0 < \<delta>" and prog: "\<And>u. \<delta> \<le> step_dt L P u"
  shows "\<exists>r. for_slices L P slices v = Some r"
proof (induction slices arbitrary: v)
  case Nil
  show ?case by simp
next
  case (Cons ts rest)
  from while_substeps_terminates [OF pos prog] obtain r
    where r: "while_substeps L P ts v = Some r" by blast
  show ?case
  proof (cases r)
    case (Inl err)
    with r show ?thesis by simp
  next
    case (Inr v')
    with r Cons [of "plot_result ts v'"] show ?thesis by simp
  qed
qed

lemma run_terminates:
  assumes pos: "0 < \<delta>" and prog: "\<And>u. \<delta> \<le> step_dt L P u"
  shows "\<exists>r. run L P c = Some r"
  using for_slices_terminates [OF pos prog]
  by (simp add: run_def split: sum.split)

lemma for_slices_rule:
  assumes run: "for_slices L P slices v = Some r"
    and init: "J (Inr v)"
    and step: "\<And>u. J (Inr u) \<Longrightarrow> J (substep L P u)"
    and plot: "\<And>ts u. J (Inr u) \<Longrightarrow> J (Inr (plot_result ts u))"
  shows "J r"
  using run init
proof (induction slices arbitrary: v)
  case Nil
  then show ?case by simp
next
  case (Cons ts rest)
  from Cons.prems(1) obtain r' where r': "while_substeps L P ts v = Some r'"
    by (cases "while_substeps L P ts v") auto
  from while_substeps_rule [OF r', of J] Cons.prems(2) step have Jr': "J r'" by blast
  show ?case
  proof (cases r')
    case (Inl err)
    with r' Cons.prems(1) Jr' show ?thesis by simp
  next
    case (Inr v')
    with r' Cons.prems(1) have "for_slices L P rest (plot_result ts v') = Some r" by simp
    moreover have "J (Inr (plot_result ts v'))" using plot Jr' Inr by simp
    ultimately show ?thesis by (rule Cons.IH)
  qed
qed

lemma run_rule:
  assumes run: "run L P c = Some r"
    and init: "J (Inr (initial c))"
    and step: "\<And>u. J (Inr u) \<Longrightarrow> J (substep L P u)"
    and plot: "\<And>ts u. J (Inr u) \<Longrightarrow> J (Inr (plot_result ts u))"
    and err: "time_step P = 0 \<Longrightarrow> J (Inl (ValueError, initial c))"
  shows "J r"
proof (cases "range_py 0 (model_run_time P + time_step P) (time_step P)")
  case (Inl e)
  then have "e = ValueError" and "time_step P = 0"
    by (auto simp: range_py_def split: if_splits)
  with Inl run err show ?thesis by (auto simp: run_def)
next
  case (Inr slices)
  with run have "for_slices L P slices (initial c) = Some r" by (simp add: run_def)
  from for_slices_rule [OF this, of J] init step plot show ?thesis by blast
qed

lemma steps_append: "steps (es @ fs) = steps es @ steps fs"
  by (induction es rule: steps.induct) simp_all

lemma plots_append: "plots (es @ fs) = plots es @ plots fs"
  by (induction es rule: plots.induct) simp_all

lemma plots_plot_result:
  "plots (trace (plot_result ts v)) = plots (trace v) @ (if 0 < ts then [ts] else [])"
  by (simp add: plot_result_def plots_append)

lemma substep_never_raises:
  assumes "\<And>c. outlet_node < length (discharge_mapper L c)"
  shows "\<exists>v'. substep L P v = Inr v'"
  using assms by (simp add: substep_def Let_def)

lemma while_substeps_plots:
  assumes "while_substeps L P ts v = Some r"
  shows "plots (trace (final r)) = plots (trace v)"
proof -
  let ?J = "\<lambda>r. plots (trace (final r)) = plots (trace v)"
  have "?J (substep L P u)" if "?J (Inr u)" for u
    using that by (simp add: final_substep plots_append)
  with while_substeps_rule [OF assms, of ?J] show ?thesis by simp
qed

lemma for_slices_plots:
  assumes "for_slices L P slices v = Some (Inr v')"
  shows "plots (trace v') = plots (trace v) @ filter (\<lambda>ts. 0 < ts) slices"
  using assms
proof (induction slices arbitrary: v)
  case Nil
  then show ?case by simp
next
  case (Cons ts rest)
  from Cons.prems obtain r where r: "while_substeps L P ts v = Some r"
    by (cases "while_substeps L P ts v") auto
  with Cons.prems obtain u where u: "r = Inr u"
    by (cases r) auto
  with r Cons.prems have "for_slices L P rest (plot_result ts u) = Some (Inr v')" by simp
  from Cons.IH [OF this] while_substeps_plots [OF r] u
  show ?case by (simp add: plots_plot_result)
qed

lemma range_py_notebook:
  "range_py 0 (1200 + 30) 30 = Inr (map (\<lambda>k. 30 * int k) [0..<41])"
  by (simp add: range_py_def mult.commute)

lemma filter_pos_slices:
  "filter (\<lambda>ts. 0 < ts) (map (\<lambda>k. 30 * int k) [0..<41]) = map (\<lambda>k. 30 * int k) [1..<41]"
proof -
  have "[0..<41] = 0 # [1..<41]" by (simp add: upt_rec)
  then show ?thesis by (simp add: filter_map o_def)
qed

lemmas run_unfold = run_def range_py_def while_substeps.simps substep_def forced_def Let_def
  rainfall_at_def steady_def still_def initial_def plot_result_def outlet_node_def
  demo_parameters_def notebook_parameters_def

lemma demo_run: "run (steady 45 26268 7) demo_parameters still = Some (Inr demo_result)"
  by (simp add: run_unfold demo_result_def upt_rec)

lemma uneven_run: "run (steady 45 26268 7) uneven_parameters still = Some (Inr uneven_result)"
  by (simp add: run_unfold uneven_parameters_def uneven_result_def upt_rec)

lemma steady_step_dt: "step_dt (steady d n q) P u = d"
  by (simp add: step_dt_def steady_def forced_def)

lemma steps_plot_result: "steps (trace (plot_result ts v)) = steps (trace v)"
  by (simp add: plot_result_def steps_append)

lemma plot_result_fields:
  "elapsed_time (plot_result ts v) = elapsed_time v"
  "outlet_times (plot_result ts v) = outlet_times v"
  "outlet_discharge (plot_result ts v) = outlet_discharge v"
  by (simp_all add: plot_result_def)

section \<open>The reporting times\<close>

text \<open>
  Claim C1. With \<^verbatim>\<open>model_run_time = 1200\<close> and \<^verbatim>\<open>time_step = 30\<close> the cell draws exactly 40
  figures, for the time slices 30, 60, ..., 1200 in this order, none left out and none
  drawn twice. The run has to get there: every sub-step advances the elapsed time by at
  least some \<open>\<delta> > 0\<close>, and the node array has an entry for the outlet node.
\<close>

theorem checkpoints_30_to_1200:
  assumes "model_run_time P = 1200" and "time_step P = 30"
    and "0 < \<delta>" and "\<forall>u. \<delta> \<le> step_dt L P u"
    and "\<forall>c. outlet_node < length (discharge_mapper L c)"
  shows "\<exists>v. run L P c = Some (Inr v)
           \<and> plots (trace v) = map (\<lambda>k. 30 * int k) [1..<41]
           \<and> length (plots (trace v)) = 40
           \<and> sorted_wrt (<) (plots (trace v))"
proof -
  from run_terminates [of \<delta> L P c] assms(3,4) obtain r where r: "run L P c = Some r"
    by blast
  let ?J = "\<lambda>r :: 'a outcome. \<exists>v. r = Inr v"
  have "?J r"
  proof (rule run_rule [OF r, of ?J])
    show "?J (substep L P u)" for u
      using substep_never_raises [of L P u] assms(5) by blast
    show "?J (Inl (ValueError, initial c))" if "time_step P = 0"
      using that assms(2) by simp
  qed simp_all
  then obtain v where v: "r = Inr v" by blast
  with r assms(1,2) have "for_slices L P (map (\<lambda>k. 30 * int k) [0..<41]) (initial c) = Some (Inr v)"
    by (simp add: run_def range_py_notebook [simplified])
  from for_slices_plots [OF this]
  have p: "plots (trace v) = map (\<lambda>k. 30 * int k) [1..<41]"
    by (simp only: filter_pos_slices) (simp add: initial_def)
  have "sorted_wrt (<) (map (\<lambda>k. 30 * int k) [1..<41])"
    by (simp add: sorted_wrt_map sorted_wrt_iff_nth_less)
  with p r v show ?thesis by simp
qed

theorem checkpoints_30_to_1200_witness:
  "model_run_time notebook_parameters = 1200 \<and> time_step notebook_parameters = 30
   \<and> (0::real) < 30 \<and> (\<forall>u. 30 \<le> step_dt (steady 30 26268 0) notebook_parameters u)
   \<and> (\<forall>c. outlet_node < length (discharge_mapper (steady 30 26268 0) c))
   \<and> (\<exists>v. run (steady 30 26268 0) notebook_parameters still = Some (Inr v)
           \<and> plots (trace v) = map (\<lambda>k. 30 * int k) [1..<41]
           \<and> length (plots (trace v)) = 40
           \<and> sorted_wrt (<) (plots (trace v)))"
proof -
  have h1: "model_run_time notebook_parameters = 1200" "time_step notebook_parameters = 30"
    by (simp_all add: notebook_parameters_def)
  have h2: "\<forall>u. 30 \<le> step_dt (steady 30 26268 0) notebook_parameters u"
    by (simp add: step_dt_def steady_def forced_def)
  have h3: "\<forall>c. outlet_node < length (discharge_mapper (steady 30 26268 0) c)"
    by (simp add: steady_def outlet_node_def)
  from checkpoints_30_to_1200 [OF h1 _ h2 h3, of still] h1 h2 h3 show ?thesis by simp
qed

section \<open>The rainfall forcing\<close>

text \<open>
  Claim C2. The rainfall handed to the integrator is a step function of the elapsed time:
  the configured \<^verbatim>\<open>rainfall_intensity\<close> for \<open>0 \<le> t < storm_duration\<close>, zero for
  \<open>t \<ge> storm_duration\<close>. It is the value of \<open>rainfall_at\<close> at the elapsed time, so two
  states with the same elapsed time get the same rainfall, whatever the library and the
  rest of the state are.
\<close>

theorem rainfall_is_step_function:
  "of_rainfall_intensity (forced L P v) = rainfall_at P (elapsed_time v)
   \<and> (0 \<le> elapsed_time v \<and> elapsed_time v < real_of_int (storm_duration P)
        \<longrightarrow> of_rainfall_intensity (forced L P v) = rainfall_intensity P)
   \<and> (real_of_int (storm_duration P) \<le> elapsed_time v
        \<longrightarrow> of_rainfall_intensity (forced L P v) = 0)
   \<and> (elapsed_time w = elapsed_time v
        \<longrightarrow> of_rainfall_intensity (forced L' P w) = of_rainfall_intensity (forced L P v))"
  by (simp add: rain_forced rainfall_at_def)

theorem rainfall_is_step_function_witness:
  "of_rainfall_intensity (forced (steady 45 26268 7) notebook_parameters (initial still))
     = 592 / 10 / (100 * 3600)
   \<and> of_rainfall_intensity
       (forced (steady 45 26268 7) notebook_parameters ((initial still)\<lparr>elapsed_time := 600\<rparr>)) = 0
   \<and> of_rainfall_intensity
       (forced (steady 1 3 0) notebook_parameters (demo_result\<lparr>elapsed_time := 600\<rparr>))
     = of_rainfall_intensity
         (forced (steady 45 26268 7) notebook_parameters ((initial still)\<lparr>elapsed_time := 600\<rparr>))"
proof -
  have a: "0 \<le> elapsed_time (initial still)
           \<and> elapsed_time (initial still) < real_of_int (storm_duration notebook_parameters)"
    by (simp add: initial_def notebook_parameters_def)
  have b: "real_of_int (storm_duration notebook_parameters)
             \<le> elapsed_time ((initial still)\<lparr>elapsed_time := 600\<rparr>)"
    by (simp add: notebook_parameters_def)
  have c: "elapsed_time (demo_result\<lparr>elapsed_time := 600\<rparr>)
             = elapsed_time ((initial still)\<lparr>elapsed_time := 600\<rparr>)"
    by simp
  from a b c
    rainfall_is_step_function [where L = "steady 45 26268 7" and P = notebook_parameters
      and v = "initial still" and w = "initial still" and L' = "steady 45 26268 7"]
    rainfall_is_step_function [where L = "steady 45 26268 7" and P = notebook_parameters
      and v = "(initial still)\<lparr>elapsed_time := 600\<rparr>"
      and w = "demo_result\<lparr>elapsed_time := 600\<rparr>" and L' = "steady 1 3 0"]
  show ?thesis by (simp add: notebook_parameters_def)
qed

text \<open>
  Claim C10. The rainfall of a sub-step is chosen from the elapsed time at which the sub-step
  starts, before \<^verbatim>\<open>dt\<close> is added. A sub-step that starts before \<^verbatim>\<open>storm_duration\<close> runs
  with the configured intensity even when it ends after \<^verbatim>\<open>storm_duration\<close>; the rainfall is
  zero only for the sub-steps that start at or after \<^verbatim>\<open>storm_duration\<close>. In the short run the
  first sub-step starts at 0, ends at 45, after the storm's 40 s, and rains throughout.
\<close>

theorem rainfall_chosen_at_start_of_substep:
  assumes "run L P c = Some r" and "(t, \<rho>, d) \<in> set (steps (trace (final r)))"
  shows "\<rho> = rainfall_at P t
         \<and> (t < real_of_int (storm_duration P) \<longrightarrow> \<rho> = rainfall_intensity P)
         \<and> (t < real_of_int (storm_duration P) \<and> real_of_int (storm_duration P) < t + d
              \<longrightarrow> \<rho> = rainfall_intensity P)
         \<and> (real_of_int (storm_duration P) \<le> t \<longrightarrow> \<rho> = 0)"
proof -
  let ?J = "\<lambda>r :: 'a outcome. \<forall>(t, \<rho>, d) \<in> set (steps (trace (final r))). \<rho> = rainfall_at P t"
  have "?J r"
  proof (rule run_rule [OF assms(1), of ?J])
    show "?J (Inr (initial c))" by (simp add: initial_def)
    show "?J (substep L P u)" if "?J (Inr u)" for u
      using that by (auto simp: final_substep steps_append)
    show "?J (Inr (plot_result ts u))" if "?J (Inr u)" for ts u
      using that by (simp add: steps_plot_result)
    show "?J (Inl (ValueError, initial c))" by (simp add: initial_def)
  qed
  with assms(2) have "\<rho> = rainfall_at P t" by auto
  then show ?thesis by (simp add: rainfall_at_def)
qed

theorem rainfall_chosen_at_start_of_substep_witness:
  "run (steady 45 26268 7) demo_parameters still = Some (Inr demo_result)
   \<and> (0, 1 / 4, 45) \<in> set (steps (trace (final (Inr demo_result :: unit outcome))))
   \<and> (0::real) < real_of_int (storm_duration demo_parameters)
   \<and> real_of_int (storm_duration demo_parameters) < 0 + 45
   \<and> (1 / 4 :: real) = rainfall_intensity demo_parameters
   \<and> (45, 0, 45) \<in> set (steps (trace (final (Inr demo_result :: unit outcome))))
   \<and> real_of_int (storm_duration demo_parameters) \<le> 45"
proof -
  have m: "(0, 1 / 4, 45) \<in> set (steps (trace (final (Inr demo_result :: unit outcome))))"
    "(45, 0, 45) \<in> set (steps (trace (final (Inr demo_result :: unit outcome))))"
    by (simp_all add: demo_result_def)
  from rainfall_chosen_at_start_of_substep [OF demo_run m(1)]
    rainfall_chosen_at_start_of_substep [OF demo_run m(2)] demo_run m
  show ?thesis by (simp add: demo_parameters_def)
qed

section \<open>The discharge series at the outlet\<close>



text \<open>
  Claim C9. A sample is appended after \<^verbatim>\<open>elapsed_time += overland_flow.dt\<close>: every recorded
  time is the start time of a sub-step plus its time step. With a positive time step every
  recorded time is positive, and the series has no sample at time 0.
\<close>

theorem sample_times_after_dt_added:
  assumes "run L P c = Some r" and "\<forall>u. 0 < step_dt L P u"
  shows "(\<forall>x \<in> set (outlet_times (final r)).
            0 < x \<and> (\<exists>t \<rho> d. (t, \<rho>, d) \<in> set (steps (trace (final r))) \<and> 0 \<le> t \<and> 0 < d
                               \<and> x = t + d))
         \<and> 0 \<notin> set (outlet_times (final r))"
proof -
  let ?J = "\<lambda>r :: 'a outcome.
      0 \<le> elapsed_time (final r)
      \<and> (\<forall>x \<in> set (outlet_times (final r)).
            0 < x \<and> (\<exists>t \<rho> d. (t, \<rho>, d) \<in> set (steps (trace (final r))) \<and> 0 \<le> t \<and> 0 < d
                               \<and> x = t + d))"
  have "?J r"
  proof (rule run_rule [OF assms(1), of ?J])
    show "?J (Inr (initial c))" by (simp add: initial_def)
    show "?J (Inl (ValueError, initial c))" by (simp add: initial_def)
    show "?J (Inr (plot_result ts u))" if "?J (Inr u)" for ts u
      using that by (simp add: steps_plot_result plot_result_fields)
    show "?J (substep L P u)" if J: "?J (Inr u)" for u
    proof -
      let ?u' = "final (substep L P u)"
      have e: "elapsed_time ?u' = elapsed_time u + step_dt L P u"
        and tr: "steps (trace ?u') =
                   steps (trace u) @ [(elapsed_time u, rainfall_at P (elapsed_time u), step_dt L P u)]"
        by (simp_all add: final_substep steps_append)
      from assms(2) have d: "0 < step_dt L P u" by simp
      from J have t0: "0 \<le> elapsed_time u" by simp
      have old: "0 < x \<and> (\<exists>t \<rho> d. (t, \<rho>, d) \<in> set (steps (trace ?u')) \<and> 0 \<le> t \<and> 0 < d \<and> x = t + d)"
        if "x \<in> set (outlet_times u)" for x
        using J that tr by fastforce
      have new: "0 < elapsed_time ?u' \<and> (\<exists>t \<rho> d. (t, \<rho>, d) \<in> set (steps (trace ?u')) \<and> 0 \<le> t
                    \<and> 0 < d \<and> elapsed_time ?u' = t + d)"
        using e d t0 tr by fastforce
      have sub: "set (outlet_times ?u') \<subseteq> insert (elapsed_time ?u') (set (outlet_times u))"
      proof (cases "substep L P u")
        case (Inr u')
        with substep_Inr(1) [OF Inr] show ?thesis by auto
      next
        case (Inl a)
        obtain err u' where "a = (err, u')" by (cases a)
        with Inl substep_Inl(2) [of L P u err u'] show ?thesis by auto
      qed
      have "0 \<le> elapsed_time ?u'" using e d t0 by simp
      moreover have "\<forall>x \<in> set (outlet_times ?u').
            0 < x \<and> (\<exists>t \<rho> d. (t, \<rho>, d) \<in> set (steps (trace ?u')) \<and> 0 \<le> t \<and> 0 < d \<and> x = t + d)"
        using sub old new by blast
      ultimately show ?thesis by blast
    qed
  qed
  then show ?thesis by auto
qed

theorem sample_times_after_dt_added_witness:
  "run (steady 45 26268 7) demo_parameters still = Some (Inr demo_result)
   \<and> (\<forall>u. 0 < step_dt (steady 45 26268 7) demo_parameters u)
   \<and> outlet_times demo_result = [45, 90]
   \<and> 0 \<notin> set (outlet_times demo_result)"
proof -
  have h: "\<forall>u. 0 < step_dt (steady 45 26268 7) demo_parameters u"
    by (simp add: steady_step_dt)
  have "outlet_times demo_result = [45, 90]"
    by (simp add: demo_result_def)
  with sample_times_after_dt_added [OF demo_run h] demo_run h
  show ?thesis by simp
qed

section \<open>Sub-steps and reporting times together\<close>

lemma reached_append_Step: "reached es \<Longrightarrow> reached (es @ [Step t \<rho> d])"
  unfolding reached_def by fastforce

lemma arrived_mono: "arrived b v \<Longrightarrow> b \<le> b' \<Longrightarrow> arrived b' v"
  unfolding arrived_def by fastforce

lemma arrived_substep:
  assumes "substep L P u = Inr u'" and "elapsed_time u < b"
  shows "arrived b u'"
proof -
  from final_substep(1,2) [of L P u] assms(1)
  have "elapsed_time u' = elapsed_time u + step_dt L P u"
    and "Step (elapsed_time u) (rainfall_at P (elapsed_time u)) (step_dt L P u) \<in> set (trace u')"
    by simp_all
  with substep_Inr(1) [OF assms(1)] assms(2) show ?thesis
    unfolding arrived_def by auto
qed

lemma reached_plot_result:
  assumes "reached (trace u)" and "arrived (real_of_int ts) u"
    and "real_of_int ts \<le> elapsed_time u"
  shows "reached (trace (plot_result ts u))" and "arrived (real_of_int ts) (plot_result ts u)"
proof -
  show "arrived (real_of_int ts) (plot_result ts u)"
    using assms(2) unfolding arrived_def plot_result_def by auto
  show "reached (trace (plot_result ts u))"
  proof (cases "0 < ts")
    case False
    with assms(1) show ?thesis by (simp add: plot_result_def)
  next
    case True
    with assms(3) have "\<not> elapsed_time u \<le> 0" by simp
    with assms(2) have new: "outlet_times u \<noteq> [] \<and> real_of_int ts \<le> last (outlet_times u)
        \<and> (\<exists>t \<rho> d. Step t \<rho> d \<in> set (trace u) \<and> t < real_of_int ts
                     \<and> last (outlet_times u) = t + d)"
      using assms(3) unfolding arrived_def by auto
    have "reached (trace u @ [Plot ts (outlet_times u) (outlet_discharge u)])"
      unfolding reached_def
    proof (intro allI impI)
      fix ts' xs ys
      assume "Plot ts' xs ys \<in> set (trace u @ [Plot ts (outlet_times u) (outlet_discharge u)])"
      then consider "Plot ts' xs ys \<in> set (trace u)"
        | "ts' = ts" "xs = outlet_times u" by auto
      then show "xs \<noteq> [] \<and> real_of_int ts' \<le> last xs
          \<and> (\<exists>t \<rho> d. Step t \<rho> d \<in> set (trace u @ [Plot ts (outlet_times u) (outlet_discharge u)])
                \<and> t < real_of_int ts' \<and> last xs = t + d)"
      proof cases
        case 1
        with assms(1) show ?thesis unfolding reached_def by fastforce
      next
        case 2
        with new show ?thesis by auto
      qed
    qed
    with True show ?thesis by (simp add: plot_result_def)
  qed
qed

lemma while_substeps_reached:
  assumes "while_substeps L P ts v = Some r" and "reached (trace v)"
    and "arrived (real_of_int ts) v"
  shows "reached (trace (final r))"
    and "r = Inr u \<Longrightarrow> arrived (real_of_int ts) u \<and> real_of_int ts \<le> elapsed_time u"
proof -
  let ?J = "\<lambda>r :: 'a outcome. reached (trace (final r))
              \<and> (\<forall>u. r = Inr u \<longrightarrow> arrived (real_of_int ts) u)"
  have *: "?J r \<and> (\<forall>u. r = Inr u \<longrightarrow> real_of_int ts \<le> elapsed_time u)"
  proof (rule while_substeps_rule [OF assms(1), of ?J])
    show "?J (Inr v)" using assms(2,3) by simp
    show "?J (substep L P u)" if "?J (Inr u)" and "elapsed_time u < real_of_int ts" for u
      using that arrived_substep [of L P u _ "real_of_int ts"]
      by (simp add: final_substep reached_append_Step)
  qed
  then show "reached (trace (final r))" by simp
  from * show "arrived (real_of_int ts) u \<and> real_of_int ts \<le> elapsed_time u" if "r = Inr u"
    using that by simp
qed

lemma for_slices_reached:
  assumes "for_slices L P slices v = Some r" and "sorted slices"
    and "reached (trace v)" and "arrived b v" and "\<forall>ts \<in> set slices. b \<le> real_of_int ts"
  shows "reached (trace (final r))"
  using assms
proof (induction slices arbitrary: v b)
  case Nil
  then show ?case by auto
next
  case (Cons ts rest)
  from Cons.prems(1) obtain r' where r': "while_substeps L P ts v = Some r'"
    by (cases "while_substeps L P ts v") auto
  from Cons.prems(5) have "b \<le> real_of_int ts" by simp
  with Cons.prems(4) have a: "arrived (real_of_int ts) v" by (rule arrived_mono)
  note w = while_substeps_reached [OF r' Cons.prems(3) a]
  show ?case
  proof (cases r')
    case (Inl err)
    with r' Cons.prems(1) have "r = r'" by simp
    with w(1) show ?thesis by simp
  next
    case (Inr u)
    with r' Cons.prems(1) have f: "for_slices L P rest (plot_result ts u) = Some r" by simp
    from w(2) [OF Inr] have au: "arrived (real_of_int ts) u" and le: "real_of_int ts \<le> elapsed_time u"
      by simp_all
    from w(1) Inr have ru: "reached (trace u)" by simp
    note p = reached_plot_result [OF ru au le]
    from Cons.prems(2) have s: "sorted rest" and b: "\<forall>ts' \<in> set rest. real_of_int ts \<le> real_of_int ts'"
      by simp_all
    from f s p b show ?thesis by (rule Cons.IH)
  qed
qed

lemma while_substeps_elapsed:
  assumes "while_substeps L P ts v = Some r" and "\<forall>u. 0 \<le> step_dt L P u"
  shows "elapsed_time v \<le> elapsed_time (final r)"
    and "r = Inr u \<Longrightarrow> real_of_int ts \<le> elapsed_time u"
proof -
  let ?J = "\<lambda>r :: 'a outcome. elapsed_time v \<le> elapsed_time (final r)"
  have "?J (substep L P u)" if "?J (Inr u)" for u
    using that assms(2) [rule_format, of u] by (simp add: final_substep)
  from while_substeps_rule [OF assms(1), of ?J] this
  have *: "?J r \<and> (\<forall>u. r = Inr u \<longrightarrow> real_of_int ts \<le> elapsed_time u)" by simp
  then show "elapsed_time v \<le> elapsed_time (final r)" by simp
  from * show "real_of_int ts \<le> elapsed_time u" if "r = Inr u" using that by simp
qed

lemma for_slices_elapsed:
  assumes "for_slices L P slices v = Some (Inr v')" and "\<forall>u. 0 \<le> step_dt L P u"
  shows "elapsed_time v \<le> elapsed_time v' \<and> (\<forall>ts \<in> set slices. real_of_int ts \<le> elapsed_time v')"
  using assms(1)
proof (induction slices arbitrary: v)
  case Nil
  then show ?case by simp
next
  case (Cons ts rest)
  from Cons.prems obtain r where r: "while_substeps L P ts v = Some r"
    by (cases "while_substeps L P ts v") auto
  with Cons.prems obtain u where u: "r = Inr u" by (cases r) auto
  with r Cons.prems have f: "for_slices L P rest (plot_result ts u) = Some (Inr v')" by simp
  from while_substeps_elapsed [OF r assms(2)] u
  have "elapsed_time v \<le> elapsed_time u" "real_of_int ts \<le> elapsed_time u" by simp_all
  with Cons.IH [OF f] show ?case by (simp add: plot_result_fields)
qed

lemma range_py_pos:
  assumes "0 < s"
  shows "\<exists>n. range_py 0 (T + s) s = Inr (map (\<lambda>k. int k * s) [0..<n])
           \<and> (\<forall>k<n. int k * s < T + s)
           \<and> (n = 0 \<longrightarrow> T < 0)
           \<and> (0 < n \<longrightarrow> T \<le> int (n - 1) * s)"
proof -
  define q where "q = (T + s - 0 + s - 1) div s"
  define m where "m = (T + s - 0 + s - 1) mod s"
  have qm: "s * q + m = T + 2 * s - 1" and m: "0 \<le> m" "m < s"
    using assms unfolding q_def m_def by simp_all
  have r: "range_py 0 (T + s) s = Inr (map (\<lambda>k. int k * s) [0..<nat q])"
    using assms by (simp add: range_py_def q_def)
  have a: "int k * s < T + s" if "k < nat q" for k
  proof -
    from that have "int k \<le> q - 1" by simp
    with assms have "int k * s \<le> (q - 1) * s" by (intro mult_right_mono) simp_all
    also have "\<dots> = s * q - s" by (simp add: algebra_simps)
    also have "\<dots> < T + s" using qm m by simp
    finally show ?thesis .
  qed
  have b: "T < 0" if "nat q = 0"
  proof -
    from that have "q \<le> 0" by simp
    with assms have "s * q \<le> 0" by (simp add: mult_le_0_iff)
    with qm m assms show ?thesis by simp
  qed
  have c: "T \<le> int (nat q - 1) * s" if "0 < nat q"
  proof -
    from that have "int (nat q - 1) = q - 1" by simp
    then have "int (nat q - 1) * s = s * q - s" by (simp add: algebra_simps)
    with qm m show ?thesis by simp
  qed
  show ?thesis
  proof (intro exI [of _ "nat q"] conjI allI impI)
    show "range_py 0 (T + s) s = Inr (map (\<lambda>k. int k * s) [0..<nat q])" by (rule r)
    show "int k * s < T + s" if "k < nat q" for k using that by (rule a)
    show "T < 0" if "nat q = 0" using that by (rule b)
    show "T \<le> int (nat q - 1) * s" if "0 < nat q" using that by (rule c)
  qed
qed

lemma sorted_wrt_slices:
  assumes "0 < (s::int)"
  shows "sorted_wrt (<) (map (\<lambda>k. int k * s) [0..<n])"
  using assms by (simp add: sorted_wrt_map sorted_wrt_iff_nth_less)

text \<open>
  The outer loop does not stop at the first reporting time above \<^verbatim>\<open>model_run_time\<close>. With a run
  time of 100 s and an interval of 30 s the cell works through the slice 120 and draws
  \<^verbatim>\<open>flow_120.png\<close>.
\<close>

theorem checkpoint_beyond_run_time_counterexample:
  "run (steady 45 26268 7) uneven_parameters still = Some (Inr uneven_result)
   \<and> plots (trace uneven_result) = [30, 60, 90, 120]
   \<and> model_run_time uneven_parameters = 100
   \<and> model_run_time uneven_parameters < last (plots (trace uneven_result))"
  using uneven_run by (simp add: uneven_result_def uneven_parameters_def)

text \<open>
  Claim C4, as the cell behaves. Sub-steps are taken while \<^verbatim>\<open>elapsed_time < time_slice\<close>. With a
  positive reporting interval, a library whose sub-steps advance by at least \<open>\<delta> > 0\<close> and a
  node array that covers the outlet, the cell ends, and: the time slices are strictly
  increasing and all below \<^verbatim>\<open>model_run_time + time_step\<close>, so the loop ends with the first
  multiple of the interval at or above \<^verbatim>\<open>model_run_time\<close>; no slice is above
  \<^verbatim>\<open>model_run_time\<close> when the interval divides it, and otherwise the last slice is above it and
  has its figure; the figures are drawn for the positive slices in this order; each figure is
  drawn when the last recorded time is at or after its slice, reached by a sub-step that
  started before the slice, so the overshoot is less than that sub-step's \<^verbatim>\<open>dt\<close>; and the
  final elapsed time covers \<^verbatim>\<open>model_run_time\<close>.
\<close>

theorem checkpoints_in_order_without_overshoot:
  assumes "0 < time_step P" and "0 < \<delta>" and "\<forall>u. \<delta> \<le> step_dt L P u"
    and "\<forall>c'. outlet_node < length (discharge_mapper L c')"
  shows "\<exists>slices v.
           range_py 0 (model_run_time P + time_step P) (time_step P) = Inr slices
         \<and> run L P c = Some (Inr v)
         \<and> sorted_wrt (<) slices
         \<and> (\<forall>ts \<in> set slices. ts < model_run_time P + time_step P)
         \<and> (time_step P dvd model_run_time P \<longrightarrow> (\<forall>ts \<in> set slices. ts \<le> model_run_time P))
         \<and> (0 \<le> model_run_time P \<and> \<not> time_step P dvd model_run_time P \<longrightarrow>
               slices \<noteq> [] \<and> model_run_time P < last slices
               \<and> last slices \<in> set (plots (trace v)))
         \<and> plots (trace v) = filter (\<lambda>ts. 0 < ts) slices
         \<and> (\<forall>ts xs ys. Plot ts xs ys \<in> set (trace v) \<longrightarrow>
               xs \<noteq> [] \<and> real_of_int ts \<le> last xs
               \<and> (\<exists>t \<rho> d. Step t \<rho> d \<in> set (trace v) \<and> t < real_of_int ts
                     \<and> last xs = t + d \<and> last xs - real_of_int ts < d))
         \<and> real_of_int (model_run_time P) \<le> elapsed_time v"
proof -
  let ?T = "model_run_time P" and ?s = "time_step P"
  from range_py_pos [OF assms(1), of ?T] obtain n
    where rg: "range_py 0 (?T + ?s) ?s = Inr (map (\<lambda>k. int k * ?s) [0..<n])"
      and below: "\<forall>k<n. int k * ?s < ?T + ?s"
      and none: "n = 0 \<longrightarrow> ?T < 0"
      and some: "0 < n \<longrightarrow> ?T \<le> int (n - 1) * ?s"
    by blast
  let ?slices = "map (\<lambda>k. int k * ?s) [0..<n]"
  have nonneg: "\<forall>u. 0 \<le> step_dt L P u"
    using assms(2,3) by (meson less_eq_real_def order_trans)
  from run_terminates [of \<delta> L P c] assms(2,3) obtain r where r: "run L P c = Some r"
    by blast
  let ?J = "\<lambda>r :: 'a outcome. \<exists>v. r = Inr v"
  have "?J r"
  proof (rule run_rule [OF r, of ?J])
    show "?J (substep L P u)" for u
      using substep_never_raises [of L P u] assms(4) by blast
    show "?J (Inl (ValueError, initial c))" if "time_step P = 0"
      using that assms(1) by simp
  qed simp_all
  then obtain v where v: "r = Inr v" by blast
  with r rg have f: "for_slices L P ?slices (initial c) = Some (Inr v)"
    by (simp add: run_def)
  have sw: "sorted_wrt (<) ?slices" using assms(1) by (rule sorted_wrt_slices)
  then have so: "sorted ?slices" by (rule strict_sorted_imp_sorted)
  have pl: "plots (trace v) = filter (\<lambda>ts. 0 < ts) ?slices"
    using for_slices_plots [OF f] by (simp add: initial_def)
  have "reached (trace (final (Inr v :: 'a outcome)))"
  proof (rule for_slices_reached [OF f so, of 0])
    show "reached (trace (initial c))" by (simp add: reached_def initial_def)
    show "arrived 0 (initial c)" by (simp add: arrived_def initial_def)
    show "\<forall>ts \<in> set ?slices. 0 \<le> real_of_int ts" using assms(1) by simp
  qed
  then have re: "\<forall>ts xs ys. Plot ts xs ys \<in> set (trace v) \<longrightarrow>
               xs \<noteq> [] \<and> real_of_int ts \<le> last xs
               \<and> (\<exists>t \<rho> d. Step t \<rho> d \<in> set (trace v) \<and> t < real_of_int ts
                     \<and> last xs = t + d \<and> last xs - real_of_int ts < d)"
    unfolding reached_def by fastforce
  note el = for_slices_elapsed [OF f nonneg]
  have cover: "real_of_int ?T \<le> elapsed_time v"
  proof (cases "n = 0")
    case True
    with none have "real_of_int ?T \<le> 0" by simp
    also have "0 \<le> elapsed_time v" using el by (simp add: initial_def)
    finally show ?thesis .
  next
    case False
    then have "n - 1 \<in> set [0..<n]" by simp
    then have "int (n - 1) * ?s \<in> set ?slices" unfolding set_map by (rule imageI)
    with el have "real_of_int (int (n - 1) * ?s) \<le> elapsed_time v" by blast
    moreover from False some have "real_of_int ?T \<le> real_of_int (int (n - 1) * ?s)"
      by (simp only: of_int_le_iff)
    ultimately show ?thesis by simp
  qed
  have bd: "\<forall>ts \<in> set ?slices. ts < ?T + ?s" using below by simp
  have dv: "?s dvd ?T \<longrightarrow> (\<forall>ts \<in> set ?slices. ts \<le> ?T)"
  proof (intro impI ballI)
    fix ts
    assume d: "?s dvd ?T" and "ts \<in> set ?slices"
    then obtain k where k: "k < n" "ts = int k * ?s" by auto
    from d obtain m where m: "?T = ?s * m" ..
    from below k have "int k * ?s < ?T + ?s" by simp
    with m have "int k * ?s < (m + 1) * ?s" by (simp add: algebra_simps)
    with assms(1) have "int k < m + 1" by (simp add: mult_less_cancel_right)
    then have "int k \<le> m" by simp
    with assms(1) have "int k * ?s \<le> m * ?s" by (intro mult_right_mono) simp_all
    with m k show "ts \<le> ?T" by (simp add: mult.commute)
  qed
  have nd: "0 \<le> ?T \<and> \<not> ?s dvd ?T \<longrightarrow>
              ?slices \<noteq> [] \<and> ?T < last ?slices \<and> last ?slices \<in> set (plots (trace v))"
  proof (intro impI)
    assume a: "0 \<le> ?T \<and> \<not> ?s dvd ?T"
    with none have n: "0 < n" by auto
    then have ne: "?slices \<noteq> []" by simp
    from n have "[0..<n] \<noteq> []" by simp
    then have "last ?slices = int (last [0..<n]) * ?s" by (simp add: last_map)
    also from n have "last [0..<n] = n - 1" by (cases n) simp_all
    finally have la: "last ?slices = int (n - 1) * ?s" .
    from n some have le: "?T \<le> int (n - 1) * ?s" by simp
    have "?T \<noteq> int (n - 1) * ?s"
    proof
      assume "?T = int (n - 1) * ?s"
      then have "?s dvd ?T" by simp
      with a show False by simp
    qed
    with le have lt: "?T < last ?slices" using la by simp
    with a have "0 < last ?slices" by simp
    moreover from ne have "last ?slices \<in> set ?slices" by (rule last_in_set)
    ultimately have "last ?slices \<in> set (filter (\<lambda>ts. 0 < ts) ?slices)" by simp
    with ne lt pl show "?slices \<noteq> [] \<and> ?T < last ?slices \<and> last ?slices \<in> set (plots (trace v))"
      by simp
  qed
  show ?thesis
  proof (intro exI [of _ ?slices] exI [of _ v] conjI)
    show "range_py 0 (?T + ?s) ?s = Inr ?slices" by (rule rg)
    show "run L P c = Some (Inr v)" using r v by simp
  qed (rule sw bd dv nd pl re cover)+
qed

theorem checkpoints_in_order_without_overshoot_witness:
  "0 < time_step demo_parameters \<and> (0::real) < 45
   \<and> (\<forall>u. 45 \<le> step_dt (steady 45 26268 7) demo_parameters u)
   \<and> (\<forall>c'. outlet_node < length (discharge_mapper (steady 45 26268 7) c'))
   \<and> range_py 0 (model_run_time demo_parameters + time_step demo_parameters)
         (time_step demo_parameters) = Inr [0, 30, 60]
   \<and> run (steady 45 26268 7) demo_parameters still = Some (Inr demo_result)
   \<and> plots (trace demo_result) = [30, 60]
   \<and> real_of_int (model_run_time demo_parameters) \<le> elapsed_time demo_result
   \<and> time_step demo_parameters dvd model_run_time demo_parameters
   \<and> Plot 60 [45, 90] [7, 7] \<in> set (trace demo_result)
   \<and> Step 45 0 45 \<in> set (trace demo_result)
   \<and> (45::real) < real_of_int 60 \<and> real_of_int 60 \<le> last [45, 90::real]
   \<and> 0 < time_step uneven_parameters
   \<and> (\<forall>u. 45 \<le> step_dt (steady 45 26268 7) uneven_parameters u)
   \<and> 0 \<le> model_run_time uneven_parameters
   \<and> \<not> time_step uneven_parameters dvd model_run_time uneven_parameters
   \<and> range_py 0 (model_run_time uneven_parameters + time_step uneven_parameters)
         (time_step uneven_parameters) = Inr [0, 30, 60, 90, 120]
   \<and> run (steady 45 26268 7) uneven_parameters still = Some (Inr uneven_result)
   \<and> model_run_time uneven_parameters < last [0, 30, 60, 90, 120]
   \<and> last [0, 30, 60, 90, 120] \<in> set (plots (trace uneven_result))
   \<and> real_of_int (model_run_time uneven_parameters) \<le> elapsed_time uneven_result"
proof -
  have h4: "time_step demo_parameters dvd model_run_time demo_parameters"
    "Plot 60 [45, 90] [7, 7] \<in> set (trace demo_result)"
    "Step 45 0 45 \<in> set (trace demo_result)"
    "(45::real) < real_of_int 60 \<and> real_of_int 60 \<le> last [45, 90::real]"
    by (simp_all add: demo_parameters_def demo_result_def)
  have h1: "0 < time_step demo_parameters" by (simp add: demo_parameters_def)
  have h2: "\<forall>u. 45 \<le> step_dt (steady 45 26268 7) demo_parameters u"
    by (simp add: steady_step_dt)
  have h3: "\<forall>c'. outlet_node < length (discharge_mapper (steady 45 26268 7) c')"
    by (simp add: steady_def outlet_node_def)
  have rg: "range_py 0 (model_run_time demo_parameters + time_step demo_parameters)
              (time_step demo_parameters) = Inr [0, 30, 60]"
    by (simp add: range_py_def demo_parameters_def upt_rec)
  from checkpoints_in_order_without_overshoot [OF h1 _ h2 h3, of still]
  obtain slices v
    where "range_py 0 (model_run_time demo_parameters + time_step demo_parameters)
             (time_step demo_parameters) = Inr slices"
      and "run (steady 45 26268 7) demo_parameters still = Some (Inr v)"
      and "plots (trace v) = filter (\<lambda>ts. 0 < ts) slices"
      and "real_of_int (model_run_time demo_parameters) \<le> elapsed_time v"
    by auto
  with rg demo_run
  have even: "plots (trace demo_result) = [30, 60]"
    "real_of_int (model_run_time demo_parameters) \<le> elapsed_time demo_result"
    by simp_all
  have u1: "0 < time_step uneven_parameters"
    and u2: "\<forall>u. 45 \<le> step_dt (steady 45 26268 7) uneven_parameters u"
    and u4: "0 \<le> model_run_time uneven_parameters
             \<and> \<not> time_step uneven_parameters dvd model_run_time uneven_parameters"
    by (simp_all add: uneven_parameters_def steady_step_dt)
  have urg: "range_py 0 (model_run_time uneven_parameters + time_step uneven_parameters)
              (time_step uneven_parameters) = Inr [0, 30, 60, 90, 120]"
    by (simp add: range_py_def uneven_parameters_def upt_rec)
  from checkpoints_in_order_without_overshoot [OF u1 _ u2 h3, of still]
  obtain slices' v'
    where "range_py 0 (model_run_time uneven_parameters + time_step uneven_parameters)
             (time_step uneven_parameters) = Inr slices'"
      and "run (steady 45 26268 7) uneven_parameters still = Some (Inr v')"
      and "0 \<le> model_run_time uneven_parameters
             \<and> \<not> time_step uneven_parameters dvd model_run_time uneven_parameters \<longrightarrow>
           slices' \<noteq> [] \<and> model_run_time uneven_parameters < last slices'
           \<and> last slices' \<in> set (plots (trace v'))"
      and "real_of_int (model_run_time uneven_parameters) \<le> elapsed_time v'"
    by auto
  with urg uneven_run u4
  have uneven: "model_run_time uneven_parameters < last [0, 30, 60, 90, 120]"
    "last [0, 30, 60, 90, 120] \<in> set (plots (trace uneven_result))"
    "real_of_int (model_run_time uneven_parameters) \<le> elapsed_time uneven_result"
    by simp_all
  have "(0::real) < 45" by simp
  with h1 h2 h3 h4 rg demo_run even u1 u2 u4 urg uneven_run uneven
  show ?thesis by blast
qed

section \<open>The outlet index\<close>

text \<open>
  On a grid of four nodes the outlet index 26267 lies outside the node array. The cell does
  not stop before the loop: it calls the integrator once, advances the elapsed time, and
  only then stops with the index error of \<^verbatim>\<open>discharge[26267]\<close>.
\<close>

theorem boundary_check_counterexample:
  "run (steady 30 4 0) notebook_parameters still =
     Some (Inl (IndexError,
       \<lparr>elapsed_time = 30, outlet_discharge = [], outlet_times = [],
        component = \<lparr>of_dt = 30, of_rainfall_intensity = 592 / 10 / (100 * 3600), internals = ()\<rparr>,
        trace = [Step 0 (592 / 10 / (100 * 3600)) 30]\<rparr>))"
  by (simp add: run_unfold upt_rec)

text \<open>
  Claim C7, as the cell behaves. The cell checks nothing about the boundary before the loop
  and reads the outlet index only in \<^verbatim>\<open>discharge[26267]\<close>. When the node array has no entry
  26267, and the run time and the reporting interval are positive, the first sub-step calls
  the integrator and adds its \<^verbatim>\<open>dt\<close>; the index error follows, before any sample is recorded
  and before any figure is drawn.
\<close>

theorem outlet_outside_grid_raises_in_first_substep:
  assumes "\<forall>c'. length (discharge_mapper L c') \<le> outlet_node"
    and "0 < time_step P" and "0 < model_run_time P"
  shows "\<exists>v. run L P c = Some (Inl (IndexError, v))
           \<and> steps (trace v) = [(0, rainfall_at P 0, step_dt L P (initial c))]
           \<and> plots (trace v) = []
           \<and> outlet_times v = [] \<and> outlet_discharge v = []
           \<and> elapsed_time v = step_dt L P (initial c)"
proof -
  let ?T = "model_run_time P" and ?s = "time_step P"
  from range_py_pos [OF assms(2), of ?T] obtain n
    where rg: "range_py 0 (?T + ?s) ?s = Inr (map (\<lambda>k. int k * ?s) [0..<n])"
      and none: "n = 0 \<longrightarrow> ?T < 0"
      and some: "0 < n \<longrightarrow> ?T \<le> int (n - 1) * ?s"
    by blast
  have "2 \<le> n"
  proof (rule ccontr)
    assume "\<not> 2 \<le> n"
    then consider "n = 0" | "n = 1" by linarith
    then show False using none some assms(3) by cases simp_all
  qed
  then have "[0..<n] = 0 # [1..<n]" and "[1..<n] = 1 # [2..<n]"
    by (simp_all add: upt_conv_Cons numeral_2_eq_2)
  then have "[0..<n] = 0 # 1 # [2..<n]" by simp
  then have sl: "map (\<lambda>k. int k * ?s) [0..<n] = 0 # ?s # map (\<lambda>k. int k * ?s) [2..<n]"
    by simp
  let ?v0 = "initial c"
  obtain a where a: "substep L P ?v0 = Inl a"
    using assms(1) by (simp add: substep_def Let_def not_less)
  obtain e v where ev: "a = (e, v)" by (cases a)
  have w0: "while_substeps L P 0 ?v0 = Some (Inr ?v0)"
    by (subst while_substeps.simps) (simp add: initial_def)
  have w1: "while_substeps L P ?s ?v0 = Some (Inl (e, v))"
    using a ev assms(2) by (subst while_substeps.simps) (simp add: initial_def)
  have "run L P c = Some (Inl (e, v))"
    using rg sl w0 w1 by (simp add: run_def plot_result_def)
  moreover have "e = IndexError" "outlet_times v = []" "outlet_discharge v = []"
    using substep_Inl(1,2,3) [of L P ?v0 e v] a ev by (simp_all add: initial_def)
  moreover have "elapsed_time v = step_dt L P ?v0"
    and "trace v = [Step 0 (rainfall_at P 0) (step_dt L P ?v0)]"
    using final_substep(1,2) [of L P ?v0] a ev by (simp_all add: initial_def)
  ultimately show ?thesis by simp
qed

theorem outlet_outside_grid_raises_in_first_substep_witness:
  "(\<forall>c'. length (discharge_mapper (steady 45 4 7) c') \<le> outlet_node)
   \<and> 0 < time_step demo_parameters \<and> 0 < model_run_time demo_parameters
   \<and> (\<exists>v. run (steady 45 4 7) demo_parameters still = Some (Inl (IndexError, v))
          \<and> steps (trace v) = [(0, 1 / 4, 45)]
          \<and> plots (trace v) = []
          \<and> outlet_times v = [] \<and> outlet_discharge v = []
          \<and> elapsed_time v = 45)"
proof -
  have h1: "\<forall>c'. length (discharge_mapper (steady 45 4 7) c') \<le> outlet_node"
    by (simp add: steady_def outlet_node_def)
  have h2: "0 < time_step demo_parameters" "0 < model_run_time demo_parameters"
    by (simp_all add: demo_parameters_def)
  have "rainfall_at demo_parameters 0 = 1 / 4"
    by (simp add: rainfall_at_def demo_parameters_def)
  with outlet_outside_grid_raises_in_first_substep [OF h1 h2, of still] h1 h2
  show ?thesis by (simp add: steady_step_dt)
qed

end
